theory Spec2Isabelle
  imports Main
begin

section \<open>The call-graph construction pass of PyCG (pycg/processing/cgprocessor.py)\<close>

text \<open>
  The class \<^verbatim>\<open>CallGraphProcessor\<close> walks a module's syntax tree and records nodes and
  edges in a call graph. Its collaborators (definition store, closure, scope manager,
  call graph, the base class \<^verbatim>\<open>ProcessingBase\<close>, \<^verbatim>\<open>utils\<close>) live in other files of
  the repository. What they hold when the pass starts is a field of the record \<open>env\<close>;
  what the pass mutates is a field of the record \<open>pstate\<close>.
\<close>

subsection \<open>Syntax trees\<close>

text \<open>
  The fragment of Python's \<^verbatim>\<open>ast\<close> that the processor dispatches on: \<^verbatim>\<open>ast.Name\<close>
  (field \<^verbatim>\<open>id\<close>), \<^verbatim>\<open>ast.Attribute\<close> (fields \<^verbatim>\<open>value\<close>, \<^verbatim>\<open>attr\<close>), \<^verbatim>\<open>ast.Call\<close>
  (fields \<^verbatim>\<open>func\<close>, \<^verbatim>\<open>args\<close>, \<^verbatim>\<open>keywords\<close>), \<^verbatim>\<open>ast.Lambda\<close> (field \<^verbatim>\<open>body\<close>),
  \<^verbatim>\<open>ast.FunctionDef\<close> (fields \<^verbatim>\<open>name\<close>, \<^verbatim>\<open>decorator_list\<close>, \<^verbatim>\<open>body\<close>). Every other
  node is \<open>Node children\<close>, visited by \<^verbatim>\<open>ast.NodeVisitor.generic_visit\<close>: its children
  in field order.
\<close>

datatype node =
    Name string
  | Attribute node string
  | Call node "node list" "keyword list"
  | Lambda node
  | FunctionDef string "node list" "node list"
  | Node "node list"
and keyword = Keyword (kw_arg: "string option") (kw_value: node)

subsection \<open>Definitions, scopes, call graph\<close>

text \<open>
  Modelled from the spec: the class \<^verbatim>\<open>Definition\<close> (pycg/machinery/definitions.py is not
  among the sources). The spec's data model gives a definition a namespace, a kind (function,
  class, module-level name, external) and a callable flag.
\<close>

datatype def_kind = FUN_DEF | CLS_DEF | NAME_DEF | EXT_DEF

record Definition =
  get_ns :: string
  get_type :: def_kind
  is_callable :: bool

definition is_function_def :: "Definition \<Rightarrow> bool" where
  "is_function_def d = (get_type d = FUN_DEF)"

definition is_ext_def :: "Definition \<Rightarrow> bool" where
  "is_ext_def d = (get_type d = EXT_DEF)"

text \<open>What \<^verbatim>\<open>decode_node\<close> yields: a \<^verbatim>\<open>Definition\<close> or any other value.\<close>

datatype decoded = IsDefinition Definition | NotDefinition

text \<open>
  Modelled from the spec: a scope (pycg/machinery/scopes.py is not among the sources) maps
  local names to definitions and refers to its enclosing scope. The parent of a scope is
  fixed when the scope is built, so a chain of scopes is a finite list of scopes.
\<close>

datatype Scope = Scope (get_defs: "(string \<times> Definition) list") (parent: "Scope option")

text \<open>
  Modelled from the spec: the call graph store (pycg/machinery/callgraph.py is not among
  the sources): a node set and an edge set, insertion idempotent, and each endpoint of an
  edge is a node; \<open>add_edge\<close> therefore registers both endpoints.
\<close>

record CallGraph =
  nodes :: "string set"
  edges :: "(string \<times> string) set"

definition add_node :: "string \<Rightarrow> CallGraph \<Rightarrow> CallGraph" where
  "add_node name g = g\<lparr>nodes := insert name (nodes g)\<rparr>"

definition add_edge :: "string \<Rightarrow> string \<Rightarrow> CallGraph \<Rightarrow> CallGraph" where
  "add_edge src dest g =
     (add_node dest (add_node src g))\<lparr>edges := insert (src, dest) (edges g)\<rparr>"

subsection \<open>The processor's state and its collaborators\<close>

datatype error = AttributeError | TypeError

record pstate =
  call_graph :: CallGraph
  name_stack :: "string list"
  last_called_names :: "string list"
  lambda_counter :: "string \<Rightarrow> nat"

text \<open>
  \<open>lambda_counter s ns\<close> is the lambda counter of the scope registered under \<open>ns\<close>, the only
  field of a scope that the pass changes.

  The record \<open>env\<close> holds what the pass reads and never writes: \<^verbatim>\<open>def_manager.get\<close>,
  the closure computed in \<^verbatim>\<open>__init__\<close>, \<^verbatim>\<open>scope_manager.get_scope\<close>, the helpers of
  \<^verbatim>\<open>ProcessingBase\<close> (\<^verbatim>\<open>retrieve_call_names\<close>, \<^verbatim>\<open>decode_node\<close>,
  \<^verbatim>\<open>_retrieve_parent_names\<close>, \<^verbatim>\<open>find_cls_fun_ns\<close>; they read \<^verbatim>\<open>self\<close>, so they take the
  state), the names in \<^verbatim>\<open>__builtins__\<close>, \<^verbatim>\<open>utils.get_lambda_name\<close> and the constants
  \<^verbatim>\<open>utils.constants.BUILTIN_NAME\<close> and \<^verbatim>\<open>utils.constants.CLS_INIT\<close>.
\<close>

record env =
  def_manager :: "string \<Rightarrow> Definition option"
  closured :: "string \<Rightarrow> string list option"
  get_scope :: "string \<Rightarrow> Scope option"
  retrieve_call_names :: "pstate \<Rightarrow> node \<Rightarrow> string list"
  decode_node :: "pstate \<Rightarrow> node \<Rightarrow> decoded list"
  retrieve_parent_names :: "pstate \<Rightarrow> node \<Rightarrow> string list"
  find_cls_fun_ns :: "string \<Rightarrow> string \<Rightarrow> string list"
  builtins :: "string list"
  get_lambda_name :: "nat \<Rightarrow> string"
  BUILTIN_NAME :: string
  CLS_INIT :: string

text \<open>
  Modelled from the spec: \<^verbatim>\<open>utils.join_ns\<close> and the property \<^verbatim>\<open>current_ns\<close> of the base
  class (namespaces are dotted identifiers; the current namespace is the dotted join of the
  name stack).
\<close>

definition join_ns :: "string \<Rightarrow> string \<Rightarrow> string" where
  "join_ns a b = a @ ''.'' @ b"

fun dotted :: "string list \<Rightarrow> string" where
  "dotted [] = []"
| "dotted [x] = x"
| "dotted (x # y # ys) = x @ ''.'' @ dotted (y # ys)"

definition current_ns :: "pstate \<Rightarrow> string" where
  "current_ns s = dotted (name_stack s)"

definition is_builtin :: "env \<Rightarrow> string \<Rightarrow> bool" where
  "is_builtin env name = (name \<in> set (builtins env))"

text \<open>
  Modelled from the spec: \<^verbatim>\<open>scope_manager.get_def(current_ns, name)\<close>, the lookup that
  walks outward to the enclosing scopes.
\<close>

fun scope_get_def :: "Scope \<Rightarrow> string \<Rightarrow> Definition option" where
  "scope_get_def (Scope defs par) name =
     (case map_of defs name of
        Some d \<Rightarrow> Some d
      | None \<Rightarrow> (case par of None \<Rightarrow> None | Some p \<Rightarrow> scope_get_def p name))"

definition get_def :: "env \<Rightarrow> string \<Rightarrow> string \<Rightarrow> Definition option" where
  "get_def env ns name =
     (case get_scope env ns of None \<Rightarrow> None | Some sc \<Rightarrow> scope_get_def sc name)"

subsection \<open>\<^verbatim>\<open>has_ext_parent\<close> and \<^verbatim>\<open>get_full_attr_names\<close>\<close>

text \<open>\<^verbatim>\<open>isinstance(node, ast.Attribute)\<close>\<close>

fun is_Attribute :: "node \<Rightarrow> bool" where
  "is_Attribute (Attribute v a) = True"
| "is_Attribute _ = False"

fun has_ext_parent :: "env \<Rightarrow> pstate \<Rightarrow> node \<Rightarrow> bool" where
  "has_ext_parent env s (Attribute v a) =
     (list_ex (\<lambda>parent. case def_manager env parent of
                           None \<Rightarrow> False
                         | Some defi \<Rightarrow> is_ext_def defi)
              (retrieve_parent_names env s (Attribute v a))
      \<or> has_ext_parent env s v)"
| "has_ext_parent env s _ = False"

text \<open>The first loop of \<^verbatim>\<open>get_full_attr_names\<close>, on the variables \<^verbatim>\<open>node\<close> and \<^verbatim>\<open>name\<close>.\<close>

fun attr_loop :: "node \<Rightarrow> string \<Rightarrow> node \<times> string" where
  "attr_loop (Attribute v a) name =
     attr_loop v (if name = [] then a else a @ ''.'' @ name)"
| "attr_loop n name = (n, name)"

definition get_full_attr_names :: "env \<Rightarrow> pstate \<Rightarrow> node \<Rightarrow> string list" where
  "get_full_attr_names env s n =
     (case attr_loop n [] of
        (Name i, name) \<Rightarrow>
          (case get_def env (current_ns s) i of
             None \<Rightarrow> []
           | Some defi \<Rightarrow>
               (case closured env (get_ns defi) of
                  None \<Rightarrow> []
                | Some ids \<Rightarrow> map (\<lambda>i'. i' @ ''.'' @ name) ids))
      | _ \<Rightarrow> [])"

subsection \<open>\<^verbatim>\<open>visit_Call\<close>: resolving the call after its children are visited\<close>

text \<open>One round of the loop over \<^verbatim>\<open>names\<close> (lines 81 to 100).\<close>

definition call_pointer :: "env \<Rightarrow> string \<Rightarrow> string \<Rightarrow> CallGraph \<Rightarrow> CallGraph" where
  "call_pointer env cur pointer g =
     (case def_manager env pointer of
        None \<Rightarrow> g
      | Some pointer_def \<Rightarrow>
          (let g1 = (if is_callable pointer_def then add_edge cur pointer g else g)
           in if get_type pointer_def = CLS_DEF
              then fold (add_edge cur) (find_cls_fun_ns env pointer (CLS_INIT env)) g1
              else g1))"

text \<open>Lines 69 to 100, for the call node \<open>n\<close> with callee \<open>func\<close>.\<close>

definition resolve_call :: "env \<Rightarrow> node \<Rightarrow> node \<Rightarrow> pstate \<Rightarrow> pstate" where
  "resolve_call env n func s =
     (let names = retrieve_call_names env s n; cur = current_ns s
      in if names = [] then
           (if is_Attribute func \<and> has_ext_parent env s func then
              s\<lparr>call_graph := fold (add_edge cur) (get_full_attr_names env s func) (call_graph s)\<rparr>
            else
              (case func of
                 Name i \<Rightarrow>
                   (if i \<noteq> [] \<and> is_builtin env i
                    then s\<lparr>call_graph := add_edge cur (join_ns (BUILTIN_NAME env) i) (call_graph s)\<rparr>
                    else s)
               | _ \<Rightarrow> s))
         else
           s\<lparr>last_called_names := names,
             call_graph := fold (call_pointer env cur) names (call_graph s)\<rparr>)"

subsection \<open>\<^verbatim>\<open>visit_FunctionDef\<close>: the edges of one decorator\<close>

text \<open>Lines 47 to 53, for one decorator that has been visited.\<close>

definition decorator_edges :: "env \<Rightarrow> node \<Rightarrow> pstate \<Rightarrow> pstate" where
  "decorator_edges env decorator s =
     s\<lparr>call_graph :=
         fold (\<lambda>d g. case d of
                       NotDefinition \<Rightarrow> g
                     | IsDefinition defi \<Rightarrow>
                         fold (add_edge (current_ns s))
                              (case closured env (get_ns defi) of None \<Rightarrow> [] | Some names \<Rightarrow> names)
                              g)
              (decode_node env s decorator) (call_graph s)\<rparr>"

subsection \<open>The traversal\<close>

definition bind_err :: "error + 'a \<Rightarrow> ('a \<Rightarrow> error + 'b) \<Rightarrow> error + 'b" where
  "bind_err r f = (case r of Inl e \<Rightarrow> Inl e | Inr x \<Rightarrow> f x)"

text \<open>
  \<^verbatim>\<open>visit\<close> dispatches on the class of the node; a name has no child to visit, and an
  attribute access has its value. The class defines \<^verbatim>\<open>visit_FunctionDef\<close> twice, and
  the second definition (lines 44 to 55) replaces the first. \<^verbatim>\<open>visit_Lambda\<close> fails with
  \<^verbatim>\<open>AttributeError\<close> when no scope is registered for the current namespace
  (\<^verbatim>\<open>get_scope\<close> returns \<^verbatim>\<open>None\<close>). Modelled from the spec: the base class's
  \<^verbatim>\<open>visit_FunctionDef\<close> and \<^verbatim>\<open>visit_Lambda\<close> push the name, visit the body and restore
  the name stack; the lambda counter counts from one.
\<close>

function visit :: "env \<Rightarrow> node \<Rightarrow> pstate \<Rightarrow> error + pstate"
  and visit_all :: "env \<Rightarrow> node list \<Rightarrow> pstate \<Rightarrow> error + pstate"
  and visit_keywords :: "env \<Rightarrow> keyword list \<Rightarrow> pstate \<Rightarrow> error + pstate"
  and visit_decorators :: "env \<Rightarrow> node list \<Rightarrow> pstate \<Rightarrow> error + pstate"
where
  "visit env (Name i) s = Inr s"
| "visit env (Attribute v a) s = visit env v s"
| "visit env (Node children) s = visit_all env children s"
| "visit env (Lambda body) s =
     (case get_scope env (current_ns s) of
        None \<Rightarrow> Inl AttributeError
      | Some sc \<Rightarrow>
          (let counter = Suc (lambda_counter s (current_ns s));
               lambda_name = get_lambda_name env counter;
               lambda_fullns = join_ns (current_ns s) lambda_name;
               s1 = s\<lparr>lambda_counter := (lambda_counter s)(current_ns s := counter),
                      call_graph := add_node lambda_fullns (call_graph s)\<rparr>
           in bind_err (visit env body (s1\<lparr>name_stack := name_stack s1 @ [lambda_name]\<rparr>))
                (\<lambda>s2. Inr (s2\<lparr>name_stack := name_stack s1\<rparr>))))"
| "visit env (FunctionDef name decorator_list body) s =
     bind_err (visit_decorators env decorator_list s)
       (\<lambda>s1. let s2 = s1\<lparr>call_graph := add_node (join_ns (current_ns s1) name) (call_graph s1)\<rparr>
             in bind_err (visit_all env body (s2\<lparr>name_stack := name_stack s2 @ [name]\<rparr>))
                  (\<lambda>s3. Inr (s3\<lparr>name_stack := name_stack s2\<rparr>)))"
| "visit env (Call func args keywords) s =
     bind_err (visit_all env args s)
       (\<lambda>s1. bind_err (visit_keywords env keywords s1)
          (\<lambda>s2. bind_err (visit env func s2)
             (\<lambda>s3. Inr (resolve_call env (Call func args keywords) func s3))))"
| "visit_all env [] s = Inr s"
| "visit_all env (n # ns) s = bind_err (visit env n s) (visit_all env ns)"
| "visit_keywords env [] s = Inr s"
| "visit_keywords env (Keyword a v # ks) s = bind_err (visit env v s) (visit_keywords env ks)"
| "visit_decorators env [] s = Inr s"
| "visit_decorators env (d # ds) s =
     bind_err (visit env d s) (\<lambda>s1. visit_decorators env ds (decorator_edges env d s1))"
  by pat_completeness auto
termination
  by (relation "measure (\<lambda>x. case x of
        Inl (Inl (env, n, s)) \<Rightarrow> 2 * size n
      | Inl (Inr (env, ns, s)) \<Rightarrow> 2 * size_list size ns + 1
      | Inr (Inl (env, ks, s)) \<Rightarrow> 2 * size_list size ks + 1
      | Inr (Inr (env, ns, s)) \<Rightarrow> 2 * size_list size ns + 1)") auto

subsection \<open>\<^verbatim>\<open>get_all_reachable_functions\<close>\<close>

text \<open>
  The inner loop over the definitions of one scope, on the variables \<^verbatim>\<open>reachable\<close> and
  \<^verbatim>\<open>names\<close>. Iterating over \<^verbatim>\<open>None\<close> (a definition without closure entry) raises
  \<^verbatim>\<open>TypeError\<close>.
\<close>

fun reach_defs ::
  "env \<Rightarrow> (string \<times> Definition) list \<Rightarrow> string set \<times> string set \<Rightarrow> error + string set \<times> string set"
where
  "reach_defs env [] acc = Inr acc"
| "reach_defs env ((name, defi) # rest) (reachable, names) =
     (if is_function_def defi \<and> name \<notin> names then
        (case closured env (get_ns defi) of
           None \<Rightarrow> Inl TypeError
         | Some closure \<Rightarrow> reach_defs env rest (reachable \<union> set closure, insert name names))
      else reach_defs env rest (reachable, names))"

text \<open>The outer loop \<^verbatim>\<open>while current_scope\<close>.\<close>

fun reach_scopes ::
  "env \<Rightarrow> Scope option \<Rightarrow> string set \<times> string set \<Rightarrow> error + string set \<times> string set"
where
  "reach_scopes env None acc = Inr acc"
| "reach_scopes env (Some (Scope defs par)) acc =
     bind_err (reach_defs env defs acc) (reach_scopes env par)"

text \<open>The query returns its result and the state it was given.\<close>

definition get_all_reachable_functions :: "env \<Rightarrow> pstate \<Rightarrow> (error + string set) \<times> pstate" where
  "get_all_reachable_functions env s =
     (bind_err (reach_scopes env (get_scope env (current_ns s)) ({}, {}))
               (\<lambda>(reachable, names). Inr reachable), s)"

subsection \<open>\<^verbatim>\<open>__init__\<close>, \<^verbatim>\<open>analyze\<close> and \<^verbatim>\<open>analyze_submodules\<close>\<close>

text \<open>
  A run is one call of \<^verbatim>\<open>analyze\<close> on the processor of the root module. The events of a
  run are the calls of \<^verbatim>\<open>def_manager.transitive_closure()\<close>, each by the constructor of
  the processor of a module (line 24), with the mapping computed, and the visits of module
  trees (line 108), each with the closure mapping of the processor that visits, the one its
  edge resolution reads.
\<close>

type_synonym closure = "string \<Rightarrow> string list option"

datatype event = ClosureComputed string closure | ModuleVisited string closure

text \<open>
  What a run reads: the collaborators passed from processor to processor, the closure
  computation of the definition store, the imports of each module and its parsed tree.
\<close>

record run_env =
  collaborators :: env
  transitive_closure :: "(string \<Rightarrow> Definition option) \<Rightarrow> closure"
  get_imports :: "string \<Rightarrow> string list"
  module_tree :: "string \<Rightarrow> node"

text \<open>
  What a run changes and shares between processors: the call graph, the lambda counters of
  the scopes, the set of modules analysed, and the events so far.
\<close>

record run_state =
  graph :: CallGraph
  counters :: "string \<Rightarrow> nat"
  modules_analyzed :: "string list"
  events :: "event list"

text \<open>Line 24: the call \<^verbatim>\<open>self.def_manager.transitive_closure()\<close> of a constructor.\<close>

definition computed_closure :: "run_env \<Rightarrow> closure" where
  "computed_closure renv = transitive_closure renv (def_manager (collaborators renv))"

text \<open>
  The processor that the constructor builds: the collaborators it is given, and as
  \<^verbatim>\<open>self.closured\<close> the mapping \<open>c\<close> that line 24 assigns. No other line assigns
  \<^verbatim>\<open>self.closured\<close>.
\<close>

definition processor_env :: "run_env \<Rightarrow> closure \<Rightarrow> env" where
  "processor_env renv c = (collaborators renv)\<lparr>closured := c\<rparr>"

text \<open>
  The constructor, for the run's shared state: the closure computation is an event.
  Modelled from the spec: the constructor of the base class (pycg/processing/base.py is not
  among the sources) puts the module in the shared set of modules analysed.
\<close>

definition init_processor :: "string \<Rightarrow> closure \<Rightarrow> run_state \<Rightarrow> run_state" where
  "init_processor modname c rs =
     rs\<lparr>modules_analyzed := modname # modules_analyzed rs,
        events := events rs @ [ClosureComputed modname c]\<rparr>"

text \<open>
  \<^verbatim>\<open>analyze\<close> visits the module's tree and then its submodules. \<^verbatim>\<open>analyze_submodules\<close>
  hands the base class the class \<^verbatim>\<open>CallGraphProcessor\<close> and the arguments of its constructor
  (lines 103 to 105). Modelled from the spec: the base class's \<^verbatim>\<open>analyze_submodules\<close>
  goes through the imports of the module in order, skips a module already analysed, and for
  any other constructs a processor of the class given and calls its \<^verbatim>\<open>analyze\<close>; the
  current namespace of module-level code is the module's namespace. The recursion follows
  the imports, so it takes fuel: \<open>None\<close> is a run that has not ended within the fuel given.
\<close>

fun analyze :: "nat \<Rightarrow> run_env \<Rightarrow> string \<Rightarrow> run_state \<Rightarrow> (error + run_state) option"
  and analyze_submodules ::
    "nat \<Rightarrow> run_env \<Rightarrow> string list \<Rightarrow> run_state \<Rightarrow> (error + run_state) option"
where
  "analyze 0 renv modname rs = None"
| "analyze (Suc k) renv modname rs =
     (let c = computed_closure renv;
          env = processor_env renv c;
          rs1 = init_processor modname c rs;
          rs2 = rs1\<lparr>events := events rs1 @ [ModuleVisited modname (closured env)]\<rparr>
      in case visit env (module_tree renv modname)
                \<lparr>call_graph = graph rs2, name_stack = [modname], last_called_names = [],
                 lambda_counter = counters rs2\<rparr> of
           Inl e \<Rightarrow> Some (Inl e)
         | Inr s1 \<Rightarrow>
             analyze_submodules k renv (get_imports renv modname)
               (rs2\<lparr>graph := call_graph s1, counters := lambda_counter s1\<rparr>))"
| "analyze_submodules k renv [] rs = Some (Inr rs)"
| "analyze_submodules k renv (imp # imps) rs =
     (if imp \<in> set (modules_analyzed rs) then analyze_submodules k renv imps rs
      else (case analyze k renv imp rs of
              None \<Rightarrow> None
            | Some (Inl e) \<Rightarrow> Some (Inl e)
            | Some (Inr rs') \<Rightarrow> analyze_submodules k renv imps rs'))"

section \<open>Notions used to state the properties\<close>

text \<open>The levels of an attribute chain, from the full expression inward.\<close>

fun attr_levels :: "node \<Rightarrow> node list" where
  "attr_levels (Attribute v a) = Attribute v a # attr_levels v"
| "attr_levels n = []"

text \<open>
  A level's parent sub-expression resolves to an external definition: one of its candidate
  names has a definition, and that definition is flagged external.
\<close>

definition resolves_to_ext :: "env \<Rightarrow> pstate \<Rightarrow> node \<Rightarrow> bool" where
  "resolves_to_ext env s level =
     (\<exists>parent \<in> set (retrieve_parent_names env s level).
        \<exists>defi. def_manager env parent = Some defi \<and> is_ext_def defi)"

text \<open>The root of an attribute chain, the attribute names on the way, and the dotted suffix.\<close>

fun attr_root :: "node \<Rightarrow> node" where
  "attr_root (Attribute v a) = attr_root v"
| "attr_root n = n"

fun attr_names :: "node \<Rightarrow> string list" where
  "attr_names (Attribute v a) = attr_names v @ [a]"
| "attr_names n = []"

definition attr_suffix :: "node \<Rightarrow> string" where
  "attr_suffix n = snd (attr_loop n [])"

fun is_Name :: "node \<Rightarrow> bool" where
  "is_Name (Name i) = True"
| "is_Name _ = False"

text \<open>The closure of the chain's root identifier, looked up from the current namespace.\<close>

definition root_closure :: "env \<Rightarrow> pstate \<Rightarrow> node \<Rightarrow> string set" where
  "root_closure env s func =
     (case attr_root func of
        Name i \<Rightarrow>
          (case get_def env (current_ns s) i of
             None \<Rightarrow> {}
           | Some defi \<Rightarrow> (case closured env (get_ns defi) of None \<Rightarrow> {} | Some ids \<Rightarrow> set ids))
      | _ \<Rightarrow> {})"

text \<open>The edges that one candidate of a resolved call contributes.\<close>

definition pointer_edges :: "env \<Rightarrow> string \<Rightarrow> string \<Rightarrow> (string \<times> string) set" where
  "pointer_edges env cur p =
     (case def_manager env p of
        None \<Rightarrow> {}
      | Some d \<Rightarrow>
          (if is_callable d then {(cur, p)} else {})
          \<union> (if get_type d = CLS_DEF
               then {cur} \<times> set (find_cls_fun_ns env p (CLS_INIT env)) else {}))"


text \<open>
  The scopes from a scope outward, the names that have a function-kind definition in a list
  of scopes, and the definitions the reachable-function query counts: the function-kind
  definitions of each scope of the chain whose name has no function-kind definition in a
  scope further in.
\<close>

fun scope_chain :: "Scope \<Rightarrow> Scope list" where
  "scope_chain (Scope defs par) =
     Scope defs par # (case par of None \<Rightarrow> [] | Some p \<Rightarrow> scope_chain p)"

definition chain_from :: "Scope option \<Rightarrow> Scope list" where
  "chain_from sc = (case sc of None \<Rightarrow> [] | Some p \<Rightarrow> scope_chain p)"

definition function_names :: "Scope list \<Rightarrow> string set" where
  "function_names scopes =
     {name. \<exists>sc \<in> set scopes. \<exists>d. (name, d) \<in> set (get_defs sc) \<and> is_function_def d}"

fun counted_in :: "Scope list \<Rightarrow> Scope list \<Rightarrow> Definition set" where
  "counted_in inner [] = {}"
| "counted_in inner (sc # outer) =
     {d. \<exists>name. (name, d) \<in> set (get_defs sc) \<and> is_function_def d
                 \<and> name \<notin> function_names inner}
     \<union> counted_in (inner @ [sc]) outer"

definition closure_of :: "env \<Rightarrow> Definition \<Rightarrow> string set" where
  "closure_of env d = (case closured env (get_ns d) of None \<Rightarrow> {} | Some c \<Rightarrow> set c)"

text \<open>
  One state grows into another: the name stack is the same, and no edge and no node is lost.
\<close>

definition grows :: "pstate \<Rightarrow> pstate \<Rightarrow> bool" where
  "grows s s' \<longleftrightarrow>
     name_stack s' = name_stack s
     \<and> edges (call_graph s) \<subseteq> edges (call_graph s')
     \<and> nodes (call_graph s) \<subseteq> nodes (call_graph s')"

text \<open>The edges of one decoded value of a decorator, and the namespaces they lead to.\<close>

definition decoded_edges :: "env \<Rightarrow> string \<Rightarrow> decoded \<Rightarrow> CallGraph \<Rightarrow> CallGraph" where
  "decoded_edges env cur d g =
     (case d of
        NotDefinition \<Rightarrow> g
      | IsDefinition defi \<Rightarrow>
          fold (add_edge cur) (case closured env (get_ns defi) of None \<Rightarrow> [] | Some names \<Rightarrow> names) g)"


text \<open>Each endpoint of an edge is a node.\<close>

definition cg_inv :: "CallGraph \<Rightarrow> bool" where
  "cg_inv g \<longleftrightarrow> (\<forall>(a, b) \<in> edges g. a \<in> nodes g \<and> b \<in> nodes g)"

text \<open>
  The number of closure computations among events, and the events of analysing a list of
  modules one after the other when every closure computation yields the mapping \<open>c\<close>: for
  each module, the computation of \<open>c\<close> and then the visit with \<open>c\<close>.
\<close>

fun closure_events :: "event list \<Rightarrow> nat" where
  "closure_events [] = 0"
| "closure_events (ClosureComputed m c # es) = Suc (closure_events es)"
| "closure_events (ModuleVisited m c # es) = closure_events es"

definition module_events :: "closure \<Rightarrow> string list \<Rightarrow> event list" where
  "module_events c ms = concat (map (\<lambda>m. [ClosureComputed m c, ModuleVisited m c]) ms)"

section \<open>A small program\<close>

text \<open>
  A module \<^verbatim>\<open>m\<close> that imports the external module \<^verbatim>\<open>os\<close> and defines a function
  \<^verbatim>\<open>d\<close>, a callable class \<^verbatim>\<open>K\<close> with a constructor, and a function \<^verbatim>\<open>g\<close> with a
  local variable \<^verbatim>\<open>x\<close> and a nested function \<^verbatim>\<open>d\<close>.
\<close>

definition ex_os :: Definition where
  "ex_os = \<lparr>get_ns = ''os'', get_type = EXT_DEF, is_callable = True\<rparr>"

definition ex_m_os :: Definition where
  "ex_m_os = \<lparr>get_ns = ''m.os'', get_type = NAME_DEF, is_callable = False\<rparr>"

definition ex_d :: Definition where
  "ex_d = \<lparr>get_ns = ''m.d'', get_type = FUN_DEF, is_callable = True\<rparr>"

definition ex_K :: Definition where
  "ex_K = \<lparr>get_ns = ''m.K'', get_type = CLS_DEF, is_callable = True\<rparr>"

definition ex_g :: Definition where
  "ex_g = \<lparr>get_ns = ''m.g'', get_type = FUN_DEF, is_callable = True\<rparr>"

definition ex_g_d :: Definition where
  "ex_g_d = \<lparr>get_ns = ''m.g.d'', get_type = FUN_DEF, is_callable = True\<rparr>"

definition ex_g_x :: Definition where
  "ex_g_x = \<lparr>get_ns = ''m.g.x'', get_type = NAME_DEF, is_callable = False\<rparr>"

definition ex_scope_m :: Scope where
  "ex_scope_m = Scope [(''os'', ex_m_os), (''d'', ex_d), (''K'', ex_K), (''g'', ex_g)] None"

definition ex_scope_g :: Scope where
  "ex_scope_g = Scope [(''x'', ex_g_x), (''d'', ex_g_d)] (Some ex_scope_m)"

fun ex_call_names :: "pstate \<Rightarrow> node \<Rightarrow> string list" where
  "ex_call_names s (Call (Name i) args keywords) =
     (if i = ''K'' then [''m.K'', ''m.missing''] else if i = ''d'' then [''m.d''] else [])"
| "ex_call_names s n = []"

fun ex_decode :: "pstate \<Rightarrow> node \<Rightarrow> decoded list" where
  "ex_decode s (Name i) = (if i = ''d'' then [IsDefinition ex_d, NotDefinition] else [])"
| "ex_decode s n = []"

fun ex_parent_names :: "pstate \<Rightarrow> node \<Rightarrow> string list" where
  "ex_parent_names s (Attribute (Name i) a) = (if i = ''os'' then [''os''] else [])"
| "ex_parent_names s (Attribute (Call f args keywords) a) = [''os'']"
| "ex_parent_names s n = []"

definition ex_env :: env where
  "ex_env = \<lparr>
     def_manager = map_of [(''os'', ex_os), (''m.os'', ex_m_os), (''m.d'', ex_d), (''m.K'', ex_K),
                           (''m.g'', ex_g), (''m.g.d'', ex_g_d), (''m.g.x'', ex_g_x)],
     closured = map_of [(''m.os'', [''os'']), (''m.d'', [''m.d'']), (''m.K'', [''m.K'']),
                        (''m.g'', [''m.g'']), (''m.g.d'', [''m.g.d''])],
     get_scope = map_of [(''m'', ex_scope_m), (''m.g'', ex_scope_g)],
     retrieve_call_names = ex_call_names,
     decode_node = ex_decode,
     retrieve_parent_names = ex_parent_names,
     find_cls_fun_ns = (\<lambda>cls name. if cls = ''m.K'' then [join_ns cls name] else []),
     builtins = [''len'', ''print''],
     get_lambda_name = (\<lambda>n. ''<lambda_'' @ [''0123456789'' ! (n mod 10)] @ ''>''),
     BUILTIN_NAME = ''<builtin>'',
     CLS_INIT = ''__init__''\<rparr>"

definition ex_state :: pstate where
  "ex_state = \<lparr>call_graph = \<lparr>nodes = {}, edges = {}\<rparr>, name_stack = [''m''],
               last_called_names = [], lambda_counter = (\<lambda>ns. 0)\<rparr>"

text \<open>The same state inside the function \<^verbatim>\<open>g\<close>.\<close>

definition ex_state_g :: pstate where
  "ex_state_g = ex_state\<lparr>name_stack := [''m'', ''g'']\<rparr>"

text \<open>
  The body of the module: \<^verbatim>\<open>g\<close>, decorated with \<^verbatim>\<open>d\<close>, calls \<^verbatim>\<open>os.path.join\<close>,
  \<^verbatim>\<open>len\<close> and \<^verbatim>\<open>K\<close> with a lambda as keyword argument; and the state after its visit.
\<close>

definition ex_tree :: node where
  "ex_tree = FunctionDef ''g'' [Name ''d'']
     [Call (Attribute (Attribute (Name ''os'') ''path'') ''join'') [] [],
      Call (Name ''len'') [] [],
      Call (Name ''K'') [] [Keyword None (Lambda (Name ''x''))]]"

definition ex_final :: pstate where
  "ex_final = \<lparr>
     call_graph = \<lparr>
       nodes = {''m'', ''m.d'', ''m.g'', ''os.path.join'', ''<builtin>.len'', ''m.g.<lambda_1>'',
                ''m.K'', ''m.K.__init__''},
       edges = {(''m'', ''m.d''), (''m.g'', ''os.path.join''), (''m.g'', ''<builtin>.len''),
                (''m.g'', ''m.K''), (''m.g'', ''m.K.__init__'')}\<rparr>,
     name_stack = [''m''],
     last_called_names = [''m.K'', ''m.missing''],
     lambda_counter = (\<lambda>ns. 0)(''m.g'' := Suc 0)\<rparr>"

text \<open>The state after the call \<^verbatim>\<open>d()\<close> at module level.\<close>

definition ex_called_d :: pstate where
  "ex_called_d = \<lparr>
     call_graph = \<lparr>nodes = {''m'', ''m.d''}, edges = {(''m'', ''m.d'')}\<rparr>,
     name_stack = [''m''],
     last_called_names = [''m.d''],
     lambda_counter = (\<lambda>ns. 0)\<rparr>"




text \<open>
  A run on two modules that import each other: \<^verbatim>\<open>m\<close>, which calls \<^verbatim>\<open>d\<close>, and an empty
  module \<^verbatim>\<open>n\<close>; its first and last state.
\<close>

definition ex_run_env :: run_env where
  "ex_run_env = \<lparr>
     collaborators = ex_env,
     transitive_closure = (\<lambda>defs. closured ex_env),
     get_imports = (\<lambda>m. if m = ''m'' then [''n''] else if m = ''n'' then [''m''] else []),
     module_tree = (\<lambda>m. if m = ''m'' then Node [Call (Name ''d'') [] []] else Node [])\<rparr>"

definition ex_run_start :: run_state where
  "ex_run_start = \<lparr>graph = \<lparr>nodes = {}, edges = {}\<rparr>, counters = (\<lambda>ns. 0),
                    modules_analyzed = [], events = []\<rparr>"

definition ex_run_end :: run_state where
  "ex_run_end = \<lparr>graph = \<lparr>nodes = {''m'', ''m.d''}, edges = {(''m'', ''m.d'')}\<rparr>,
                  counters = (\<lambda>ns. 0),
                  modules_analyzed = [''n'', ''m''],
                  events = [ClosureComputed ''m'' (closured ex_env),
                            ModuleVisited ''m'' (closured ex_env),
                            ClosureComputed ''n'' (closured ex_env),
                            ModuleVisited ''n'' (closured ex_env)]\<rparr>"

text \<open>The small program without closure entry for the function \<^verbatim>\<open>m.d\<close>.\<close>

definition ex_env_no_d :: env where
  "ex_env_no_d = ex_env\<lparr>closured := (closured ex_env)(''m.d'' := None)\<rparr>"

text \<open>
  The call \<^verbatim>\<open>K()(lambda: K(), k=lambda: d())\<close> at module level, and the state after its
  visit.
\<close>

definition ex_call_args :: node where
  "ex_call_args =
     Call (Call (Name ''K'') [] [])
          [Lambda (Call (Name ''K'') [] [])]
          [Keyword (Some ''k'') (Lambda (Call (Name ''d'') [] []))]"

definition ex_called_args :: pstate where
  "ex_called_args = \<lparr>
     call_graph = \<lparr>
       nodes = {''m'', ''m.<lambda_1>'', ''m.<lambda_2>'', ''m.K'', ''m.K.__init__'', ''m.d''},
       edges = {(''m.<lambda_1>'', ''m.K''), (''m.<lambda_1>'', ''m.K.__init__''),
                (''m.<lambda_2>'', ''m.d''), (''m'', ''m.K''), (''m'', ''m.K.__init__'')}\<rparr>,
     name_stack = [''m''],
     last_called_names = [''m.K'', ''m.missing''],
     lambda_counter = (\<lambda>ns. 0)(''m'' := Suc (Suc 0))\<rparr>"

section \<open>Basic facts\<close>

lemma bind_err_simps [simp]:
  "bind_err (Inl e) f = Inl e"
  "bind_err (Inr x) f = f x"
  by (simp_all add: bind_err_def)

lemma nodes_add_node [simp]: "nodes (add_node n g) = insert n (nodes g)"
  and edges_add_node [simp]: "edges (add_node n g) = edges g"
  by (simp_all add: add_node_def)

lemma edges_add_edge [simp]: "edges (add_edge a b g) = insert (a, b) (edges g)"
  and nodes_add_edge [simp]: "nodes (add_edge a b g) = insert a (insert b (nodes g))"
  by (auto simp: add_edge_def)

lemma edges_fold_add_edge:
  "edges (fold (add_edge cur) xs g) = edges g \<union> {cur} \<times> set xs"
  by (induction xs arbitrary: g) auto

lemma nodes_fold_add_edge:
  "nodes (fold (add_edge cur) xs g) = nodes g \<union> (if xs = [] then {} else {cur}) \<union> set xs"
  by (induction xs arbitrary: g) auto

lemmas ex_defs = ex_os_def ex_m_os_def ex_d_def ex_K_def ex_g_def ex_g_d_def ex_g_x_def

lemma current_ns_ex_state [simp]: "current_ns ex_state = ''m''"
  by (simp add: current_ns_def ex_state_def)

section \<open>The external-parent check\<close>

text \<open>
  C8. \<^verbatim>\<open>has_ext_parent\<close> returns true exactly when, walking the attribute chain from
  the full expression inward, the parent sub-expression of some level resolves to a
  definition flagged external. So it is false for an expression that is not an attribute
  access (it has no level), and false for a chain none of whose levels resolves to an
  external definition.
\<close>

theorem has_ext_parent_iff:
  "has_ext_parent env s n \<longleftrightarrow> (\<exists>level \<in> set (attr_levels n). resolves_to_ext env s level)"
  by (induction n) (auto simp: resolves_to_ext_def list_ex_iff split: option.splits)

theorem has_ext_parent_iff_witness:
  "has_ext_parent ex_env ex_state (Attribute (Attribute (Name ''os'') ''path'') ''join'')
   \<and> (\<exists>level \<in> set (attr_levels (Attribute (Attribute (Name ''os'') ''path'') ''join'')).
         resolves_to_ext ex_env ex_state level)"
  using has_ext_parent_iff [of ex_env ex_state "Attribute (Attribute (Name ''os'') ''path'') ''join''"]
  by (simp add: ex_env_def ex_os_def is_ext_def_def)

section \<open>Candidate paths of an attribute chain\<close>

lemma fst_attr_loop: "fst (attr_loop n name) = attr_root n"
  by (induction n name rule: attr_loop.induct) auto

lemma dotted_append:
  "xs \<noteq> [] \<Longrightarrow> ys \<noteq> [] \<Longrightarrow> dotted (xs @ ys) = dotted xs @ ''.'' @ dotted ys"
  by (induction xs rule: dotted.induct) (auto, (cases ys; simp))

lemma snd_attr_loop:
  "[] \<notin> set (attr_names n) \<Longrightarrow> name \<noteq> [] \<Longrightarrow>
     snd (attr_loop n name) = dotted (attr_names n @ [name])"
proof (induction n name rule: attr_loop.induct)
  case (1 v a name)
  then have "snd (attr_loop v (a @ ''.'' @ name)) = dotted (attr_names v @ [a @ ''.'' @ name])"
    by simp
  also have "\<dots> = dotted (attr_names v @ [a] @ [name])"
    by (cases "attr_names v = []") (simp_all add: dotted_append)
  finally show ?case using 1 by simp
qed simp_all

text \<open>For attribute names that are not empty, the suffix is their dotted join: \<^verbatim>\<open>b.c\<close> for \<^verbatim>\<open>a.b.c\<close>.\<close>

lemma attr_suffix_dotted:
  "[] \<notin> set (attr_names n) \<Longrightarrow> attr_suffix n = dotted (attr_names n)"
proof (cases n)
  case (Attribute v a)
  assume h: "[] \<notin> set (attr_names n)"
  with Attribute have "snd (attr_loop v a) = dotted (attr_names v @ [a])"
    by (intro snd_attr_loop) auto
  with Attribute show ?thesis by (simp add: attr_suffix_def)
qed (simp_all add: attr_suffix_def)

lemma set_get_full_attr_names:
  "set (get_full_attr_names env s func) =
     (\<lambda>r. r @ ''.'' @ attr_suffix func) ` root_closure env s func"
proof -
  obtain r nm where l: "attr_loop func [] = (r, nm)" by (cases "attr_loop func []")
  then have "r = attr_root func" "nm = attr_suffix func"
    using fst_attr_loop [of func "[]"] by (simp_all add: attr_suffix_def)
  with l show ?thesis
    by (auto simp: get_full_attr_names_def root_closure_def split: node.splits option.splits)
qed

lemma get_full_attr_names_no_Name:
  assumes "\<not> is_Name (attr_root func)"
  shows "get_full_attr_names env s func = []"
proof -
  obtain r nm where l: "attr_loop func [] = (r, nm)" by (cases "attr_loop func []")
  then have "r = attr_root func" using fst_attr_loop [of func "[]"] by simp
  with l assms show ?thesis
    by (auto simp: get_full_attr_names_def split: node.splits)
qed

text \<open>
  C10. When the root of the callee's attribute chain is not a bare identifier,
  \<^verbatim>\<open>get_full_attr_names\<close> returns the empty list; so a call whose names are unresolved
  and whose callee is such a chain leaves the state as it is, no edge added, whatever the
  external-parent check returns.
\<close>

theorem get_full_attr_names_root_not_identifier:
  assumes "\<not> is_Name (attr_root func)"
  shows "get_full_attr_names env s func = []
       \<and> (is_Attribute func \<and> retrieve_call_names env s n = [] \<longrightarrow> resolve_call env n func s = s)"
proof -
  have g: "get_full_attr_names env s func = []"
    using assms by (rule get_full_attr_names_no_Name)
  have "resolve_call env n func s = s"
    if "is_Attribute func" "retrieve_call_names env s n = []"
    using that g by (cases func) (simp_all add: resolve_call_def Let_def)
  with g show ?thesis by simp
qed

theorem get_full_attr_names_root_not_identifier_witness:
  "\<not> is_Name (attr_root (Attribute (Call (Name ''f'') [] []) ''x''))
   \<and> has_ext_parent ex_env ex_state (Attribute (Call (Name ''f'') [] []) ''x'')
   \<and> get_full_attr_names ex_env ex_state (Attribute (Call (Name ''f'') [] []) ''x'') = []
   \<and> resolve_call ex_env (Call (Attribute (Call (Name ''f'') [] []) ''x'') [] [])
         (Attribute (Call (Name ''f'') [] []) ''x'') ex_state = ex_state"
proof -
  have h: "\<not> is_Name (attr_root (Attribute (Call (Name ''f'') [] []) ''x''))" by simp
  have e: "has_ext_parent ex_env ex_state (Attribute (Call (Name ''f'') [] []) ''x'')"
    by (simp add: ex_env_def ex_os_def is_ext_def_def)
  have n: "retrieve_call_names ex_env ex_state
             (Call (Attribute (Call (Name ''f'') [] []) ''x'') [] []) = []"
    by (simp add: ex_env_def)
  show ?thesis
    using h e n get_full_attr_names_root_not_identifier [OF h, of ex_env ex_state
        "Call (Attribute (Call (Name ''f'') [] []) ''x'') [] []"]
    by simp
qed

section \<open>Calls whose callee resolves to names\<close>

lemma edges_call_pointer:
  "edges (call_pointer env cur p g) = edges g \<union> pointer_edges env cur p"
  by (auto simp: call_pointer_def pointer_edges_def Let_def edges_fold_add_edge split: option.splits)

lemma edges_fold_call_pointer:
  "edges (fold (call_pointer env cur) ps g) = edges g \<union> (\<Union>p \<in> set ps. pointer_edges env cur p)"
  by (induction ps arbitrary: g) (auto simp: edges_call_pointer)

text \<open>
  C1. When the callee of a call resolves to a non-empty list of names, the edges after the
  call are the edges before it, an edge from the current namespace to each candidate whose
  definition exists and is callable, and an edge from the current namespace to each
  constructor namespace found for each candidate whose definition exists and is a class
  definition. A candidate without definition adds nothing; a candidate that is both callable
  and a class definition adds both kinds of edges.
\<close>

theorem visit_Call_resolved_names:
  assumes "retrieve_call_names env s n \<noteq> []"
  shows "edges (call_graph (resolve_call env n func s)) = edges (call_graph s)
     \<union> {(current_ns s, p) | p d. p \<in> set (retrieve_call_names env s n)
                                \<and> def_manager env p = Some d \<and> is_callable d}
     \<union> {(current_ns s, ns) | p d ns. p \<in> set (retrieve_call_names env s n)
                                \<and> def_manager env p = Some d \<and> get_type d = CLS_DEF
                                \<and> ns \<in> set (find_cls_fun_ns env p (CLS_INIT env))}"
proof -
  have "edges (call_graph (resolve_call env n func s)) =
          edges (call_graph s)
          \<union> (\<Union>p \<in> set (retrieve_call_names env s n). pointer_edges env (current_ns s) p)"
    using assms by (simp add: resolve_call_def Let_def edges_fold_call_pointer)
  then show ?thesis
    by (auto simp: pointer_edges_def split: option.splits if_splits)
qed

theorem visit_Call_resolved_names_witness:
  "retrieve_call_names ex_env ex_state (Call (Name ''K'') [] []) \<noteq> []
   \<and> edges (call_graph (resolve_call ex_env (Call (Name ''K'') [] []) (Name ''K'') ex_state))
     = {(''m'', ''m.K''), (''m'', ''m.K.__init__'')}"
proof -
  have names: "retrieve_call_names ex_env ex_state (Call (Name ''K'') [] []) = [''m.K'', ''m.missing'']"
    by (simp add: ex_env_def)
  then have h: "retrieve_call_names ex_env ex_state (Call (Name ''K'') [] []) \<noteq> []"
    by simp
  have dK: "def_manager ex_env ''m.K'' = Some ex_K"
    and dM: "def_manager ex_env ''m.missing'' = None"
    and f: "find_cls_fun_ns ex_env ''m.K'' (CLS_INIT ex_env) = [''m.K.__init__'']"
    and e: "edges (call_graph ex_state) = {}"
    by (simp_all add: ex_env_def join_ns_def ex_state_def)
  have A: "{(current_ns ex_state, p) | p d. p \<in> set [''m.K'', ''m.missing'']
              \<and> def_manager ex_env p = Some d \<and> is_callable d} = {(''m'', ''m.K'')}"
    by (auto simp: dK dM ex_K_def)
  have B: "{(current_ns ex_state, ns) | p d ns. p \<in> set [''m.K'', ''m.missing'']
              \<and> def_manager ex_env p = Some d \<and> get_type d = CLS_DEF
              \<and> ns \<in> set (find_cls_fun_ns ex_env p (CLS_INIT ex_env))} = {(''m'', ''m.K.__init__'')}"
    by (auto simp: dK dM f ex_K_def intro!: exI [of _ "''m.K''"])
  have "edges (call_graph (resolve_call ex_env (Call (Name ''K'') [] []) (Name ''K'') ex_state))
     = {(''m'', ''m.K'')} \<union> {(''m'', ''m.K.__init__'')}"
    using visit_Call_resolved_names [OF h, of "Name ''K''"] unfolding names A B e by simp
  then show ?thesis using h by auto
qed

section \<open>Calls whose callee resolves to no name\<close>

text \<open>
  C2. When the callee of a call resolves to no name: if the callee is an attribute chain
  with an external parent, the edges added are those from the current namespace to each
  path made of a namespace in the closure of the chain's root identifier, a dot and the
  attribute suffix; otherwise, if the callee is a bare identifier that is a built-in, the one
  edge to the built-in namespace qualified by that identifier is added; otherwise the state
  is unchanged.
\<close>

theorem visit_Call_unresolved_names:
  assumes "retrieve_call_names env s n = []"
  shows "(is_Attribute func \<and> has_ext_parent env s func \<longrightarrow>
            edges (call_graph (resolve_call env n func s)) =
              edges (call_graph s)
              \<union> {(current_ns s, r @ ''.'' @ attr_suffix func) | r. r \<in> root_closure env s func})
       \<and> (\<not> (is_Attribute func \<and> has_ext_parent env s func) \<longrightarrow>
            (\<forall>i. func = Name i \<and> i \<noteq> [] \<and> is_builtin env i \<longrightarrow>
               edges (call_graph (resolve_call env n func s)) =
                 insert (current_ns s, join_ns (BUILTIN_NAME env) i) (edges (call_graph s)))
          \<and> ((\<forall>i. func = Name i \<longrightarrow> i = [] \<or> \<not> is_builtin env i) \<longrightarrow>
               resolve_call env n func s = s))"
proof (intro conjI impI allI)
  assume "is_Attribute func \<and> has_ext_parent env s func"
  then have "edges (call_graph (resolve_call env n func s)) =
      edges (call_graph s) \<union> {current_ns s} \<times> set (get_full_attr_names env s func)"
    using assms by (simp add: resolve_call_def Let_def edges_fold_add_edge)
  then show "edges (call_graph (resolve_call env n func s)) =
      edges (call_graph s)
      \<union> {(current_ns s, r @ ''.'' @ attr_suffix func) | r. r \<in> root_closure env s func}"
    unfolding set_get_full_attr_names by auto
next
  fix i
  assume "\<not> (is_Attribute func \<and> has_ext_parent env s func)"
    and "func = Name i \<and> i \<noteq> [] \<and> is_builtin env i"
  then show "edges (call_graph (resolve_call env n func s)) =
      insert (current_ns s, join_ns (BUILTIN_NAME env) i) (edges (call_graph s))"
    using assms by (simp add: resolve_call_def Let_def)
next
  assume "\<not> (is_Attribute func \<and> has_ext_parent env s func)"
    and "\<forall>i. func = Name i \<longrightarrow> i = [] \<or> \<not> is_builtin env i"
  then show "resolve_call env n func s = s"
    using assms by (cases func) (auto simp: resolve_call_def Let_def)
qed

theorem visit_Call_unresolved_names_witness:
  "edges (call_graph (resolve_call ex_env
      (Call (Attribute (Attribute (Name ''os'') ''path'') ''join'') [] [])
      (Attribute (Attribute (Name ''os'') ''path'') ''join'') ex_state)) = {(''m'', ''os.path.join'')}
   \<and> edges (call_graph (resolve_call ex_env (Call (Name ''len'') [] []) (Name ''len'') ex_state))
       = {(''m'', ''<builtin>.len'')}
   \<and> resolve_call ex_env (Call (Name ''unknown'') [] []) (Name ''unknown'') ex_state = ex_state"
proof -
  let ?f = "Attribute (Attribute (Name ''os'') ''path'') ''join''"
  have n1: "retrieve_call_names ex_env ex_state (Call ?f [] []) = []"
    and n2: "retrieve_call_names ex_env ex_state (Call (Name ''len'') [] []) = []"
    and n3: "retrieve_call_names ex_env ex_state (Call (Name ''unknown'') [] []) = []"
    by (simp_all add: ex_env_def)
  have e: "has_ext_parent ex_env ex_state ?f"
    by (simp add: ex_env_def ex_os_def is_ext_def_def)
  then have a: "is_Attribute ?f \<and> has_ext_parent ex_env ex_state ?f"
    by simp
  have r: "root_closure ex_env ex_state ?f = {''os''}"
    by (simp add: root_closure_def get_def_def ex_env_def ex_scope_m_def ex_m_os_def)
  have sfx: "attr_suffix ?f = ''path.join''"
    by (simp add: attr_suffix_def)
  have b: "is_builtin ex_env ''len''" "\<not> is_builtin ex_env ''unknown''"
    "join_ns (BUILTIN_NAME ex_env) ''len'' = ''<builtin>.len''"
    by (simp_all add: is_builtin_def ex_env_def join_ns_def)
  have g: "edges (call_graph ex_state) = {}" by (simp add: ex_state_def)
  have 1: "edges (call_graph (resolve_call ex_env (Call ?f [] []) ?f ex_state)) = {(''m'', ''os.path.join'')}"
    using visit_Call_unresolved_names [OF n1, of ?f, THEN conjunct1, THEN mp, OF a]
    by (simp add: r sfx g)
  have 2: "edges (call_graph (resolve_call ex_env (Call (Name ''len'') [] []) (Name ''len'') ex_state))
       = {(''m'', ''<builtin>.len'')}"
    using visit_Call_unresolved_names [OF n2, of "Name ''len''"] b by (simp add: g)
  have 3: "resolve_call ex_env (Call (Name ''unknown'') [] []) (Name ''unknown'') ex_state = ex_state"
    using visit_Call_unresolved_names [OF n3, of "Name ''unknown''"] b by simp
  from 1 2 3 show ?thesis by simp
qed

section \<open>The reachable-function query\<close>

lemma reach_defs_result:
  assumes "distinct (map fst defs)"
    and "\<forall>(name, d) \<in> set defs. is_function_def d \<and> name \<notin> N \<longrightarrow> closured env (get_ns d) \<noteq> None"
  shows "reach_defs env defs (R, N) =
     Inr (R \<union> (\<Union>d \<in> {d. \<exists>name. (name, d) \<in> set defs \<and> is_function_def d \<and> name \<notin> N}. closure_of env d),
          N \<union> {name. \<exists>d. (name, d) \<in> set defs \<and> is_function_def d})"
  using assms
proof (induction defs arbitrary: R N)
  case Nil
  show ?case by simp
next
  case (Cons a defs)
  obtain name d where a: "a = (name, d)" by (cases a)
  show ?case
  proof (cases "is_function_def d \<and> name \<notin> N")
    case True
    then obtain c where c: "closured env (get_ns d) = Some c"
      using Cons.prems(2) a by auto
    have fresh: "\<And>d'. (name, d') \<notin> set defs"
      using Cons.prems(1) a by (auto simp: image_iff)
    have "reach_defs env defs (R \<union> set c, insert name N) =
       Inr (R \<union> set c \<union> (\<Union>d \<in> {d. \<exists>nm. (nm, d) \<in> set defs \<and> is_function_def d \<and> nm \<notin> insert name N}. closure_of env d),
            insert name N \<union> {nm. \<exists>d. (nm, d) \<in> set defs \<and> is_function_def d})"
      using Cons.prems a by (intro Cons.IH) auto
    moreover have "{d. \<exists>nm. (nm, d) \<in> set defs \<and> is_function_def d \<and> nm \<notin> insert name N}
        = {d. \<exists>nm. (nm, d) \<in> set defs \<and> is_function_def d \<and> nm \<notin> N}"
      using fresh by auto
    ultimately show ?thesis
      using True a c fresh by (auto simp: closure_of_def)
  next
    case False
    have "reach_defs env defs (R, N) =
       Inr (R \<union> (\<Union>d \<in> {d. \<exists>nm. (nm, d) \<in> set defs \<and> is_function_def d \<and> nm \<notin> N}. closure_of env d),
            N \<union> {nm. \<exists>d. (nm, d) \<in> set defs \<and> is_function_def d})"
      using Cons.prems a by (intro Cons.IH) auto
    then show ?thesis
      using False a by auto
  qed
qed


lemma function_names_snoc:
  "function_names (inner @ [Scope defs par]) =
     function_names inner \<union> {name. \<exists>d. (name, d) \<in> set defs \<and> is_function_def d}"
  by (auto simp: function_names_def)

lemma reach_scopes_result:
  assumes "\<forall>sc' \<in> set (scope_chain sc). distinct (map fst (get_defs sc'))"
    and "\<forall>d \<in> counted_in inner (scope_chain sc). closured env (get_ns d) \<noteq> None"
  shows "reach_scopes env (Some sc) (R, function_names inner) =
     Inr (R \<union> (\<Union>d \<in> counted_in inner (scope_chain sc). closure_of env d),
          function_names (inner @ scope_chain sc))"
  using assms
proof (induction sc arbitrary: R inner)
  case (Scope defs par)
  let ?here = "{d. \<exists>name. (name, d) \<in> set defs \<and> is_function_def d \<and> name \<notin> function_names inner}"
  let ?R = "R \<union> (\<Union>d \<in> ?here. closure_of env d)"
  have d: "distinct (map fst defs)"
    using Scope.prems(1) by simp
  have c: "\<forall>(name, d) \<in> set defs. is_function_def d \<and> name \<notin> function_names inner
             \<longrightarrow> closured env (get_ns d) \<noteq> None"
    using Scope.prems(2) by auto
  have step: "reach_defs env defs (R, function_names inner) =
      Inr (?R, function_names (inner @ [Scope defs par]))"
    unfolding function_names_snoc by (rule reach_defs_result [OF d c])
  show ?case
  proof (cases par)
    case None
    then show ?thesis using step by simp
  next
    case (Some p)
    have "reach_scopes env (Some p) (?R, function_names (inner @ [Scope defs par])) =
       Inr (?R \<union> (\<Union>d \<in> counted_in (inner @ [Scope defs par]) (scope_chain p). closure_of env d),
            function_names ((inner @ [Scope defs par]) @ scope_chain p))"
      using Scope.prems Some by (intro Scope.IH) auto
    then show ?thesis using step Some by (simp add: Un_assoc)
  qed
qed


lemma function_names_list:
  "function_names scopes =
     set (map fst (filter (\<lambda>nd. is_function_def (snd nd)) (concat (map get_defs scopes))))"
  by (fastforce simp: function_names_def image_iff)

lemma counted_in_Cons_list:
  "counted_in inner (sc # outer) =
     set (map snd (filter (\<lambda>nd. is_function_def (snd nd) \<and> fst nd \<notin> function_names inner)
                          (get_defs sc)))
     \<union> counted_in (inner @ [sc]) outer"
  by (auto simp: image_iff)

lemma ex_kinds:
  "is_function_def ex_m_os = False" "is_function_def ex_d = True" "is_function_def ex_K = False"
  "is_function_def ex_g = True" "is_function_def ex_g_d = True" "is_function_def ex_g_x = False"
  by (simp_all add: ex_defs is_function_def_def)

text \<open>
  Where every counted definition has a closure entry, the query walks the scope chain
  outward from the scope of the current namespace, counts each function-kind definition
  whose name has not been counted in a scope further in, returns the union of the closures
  of the counted definitions, and returns the state as it was. The names of one scope are
  distinct (a dictionary).
\<close>

lemma get_all_reachable_functions_result:
  assumes "\<forall>sc \<in> set (chain_from (get_scope env (current_ns s))). distinct (map fst (get_defs sc))"
    and "\<forall>d \<in> counted_in [] (chain_from (get_scope env (current_ns s))). closured env (get_ns d) \<noteq> None"
  shows "get_all_reachable_functions env s =
     (Inr (\<Union>d \<in> counted_in [] (chain_from (get_scope env (current_ns s))). closure_of env d), s)"
proof (cases "get_scope env (current_ns s)")
  case None
  then show ?thesis
    by (simp add: get_all_reachable_functions_def chain_from_def)
next
  case (Some sc)
  have e: "function_names [] = {}" by (simp add: function_names_def)
  have "reach_scopes env (Some sc) ({}, function_names []) =
     Inr ({} \<union> (\<Union>d \<in> counted_in [] (scope_chain sc). closure_of env d),
          function_names ([] @ scope_chain sc))"
    using assms Some by (intro reach_scopes_result) (simp_all add: chain_from_def)
  then show ?thesis
    using Some by (simp add: get_all_reachable_functions_def chain_from_def e)
qed


lemma get_all_reachable_functions_result_example:
  "chain_from (get_scope ex_env (current_ns ex_state_g)) = [ex_scope_g, ex_scope_m]
   \<and> counted_in [] [ex_scope_g, ex_scope_m] = {ex_g_d, ex_g}
   \<and> get_all_reachable_functions ex_env ex_state_g = (Inr {''m.g.d'', ''m.g''}, ex_state_g)"
proof -
  have ch: "chain_from (get_scope ex_env (current_ns ex_state_g)) = [ex_scope_g, ex_scope_m]"
    by (simp add: chain_from_def current_ns_def ex_state_g_def ex_state_def ex_env_def
        ex_scope_g_def ex_scope_m_def)
  have cn: "counted_in [] [ex_scope_g, ex_scope_m] = {ex_g_d, ex_g}"
    by (simp add: counted_in_Cons_list function_names_list ex_scope_g_def ex_scope_m_def ex_kinds
        insert_commute del: counted_in.simps(2))
  have cl: "closure_of ex_env ex_g_d = {''m.g.d''}" "closure_of ex_env ex_g = {''m.g''}"
    by (simp_all add: closure_of_def ex_env_def ex_defs)
  have h1: "\<forall>sc \<in> set (chain_from (get_scope ex_env (current_ns ex_state_g))).
      distinct (map fst (get_defs sc))"
    unfolding ch by (simp add: ex_scope_g_def ex_scope_m_def)
  have h2: "\<forall>d \<in> counted_in [] (chain_from (get_scope ex_env (current_ns ex_state_g))).
      closured ex_env (get_ns d) \<noteq> None"
    unfolding ch cn by (simp add: ex_env_def ex_defs)
  have r: "get_all_reachable_functions ex_env ex_state_g = (Inr {''m.g.d'', ''m.g''}, ex_state_g)"
    using get_all_reachable_functions_result [OF h1 h2] unfolding ch cn
    by (simp add: cl insert_commute)
  show ?thesis
    by (rule conjI [OF ch conjI [OF cn r]])
qed

text \<open>
  C6. A function-kind definition without closure entry makes the query fail: in the small
  program, with the closure entry of \<^verbatim>\<open>m.g\<close> removed, the query from inside \<^verbatim>\<open>g\<close>
  raises \<^verbatim>\<open>TypeError\<close> where \<^verbatim>\<open>visit_FunctionDef\<close> and \<^verbatim>\<open>get_full_attr_names\<close>
  take a missing entry for an empty closure.
\<close>

theorem get_all_reachable_functions_missing_closure:
  "get_all_reachable_functions (ex_env\<lparr>closured := (closured ex_env)(''m.g'' := None)\<rparr>) ex_state_g
     = (Inl TypeError, ex_state_g)"
  by (simp add: get_all_reachable_functions_def current_ns_def ex_state_g_def ex_state_def ex_env_def
      ex_scope_g_def ex_scope_m_def ex_defs is_function_def_def)

text \<open>
  C7. The query does not return the union of the closures of the definitions it counts when
  one of them has no closure entry: at module level of the small program, with the closure
  entry of \<^verbatim>\<open>m.d\<close> removed, the definitions counted are those of \<^verbatim>\<open>d\<close> and \<^verbatim>\<open>g\<close>,
  the closure of \<^verbatim>\<open>m.g\<close> is there, and the query raises \<^verbatim>\<open>TypeError\<close> at \<^verbatim>\<open>d\<close>,
  leaving the state as it was.
\<close>

theorem get_all_reachable_functions_no_union:
  "chain_from (get_scope ex_env_no_d (current_ns ex_state)) = [ex_scope_m]
   \<and> counted_in [] [ex_scope_m] = {ex_d, ex_g}
   \<and> closured ex_env_no_d (get_ns ex_d) = None
   \<and> closure_of ex_env_no_d ex_g = {''m.g''}
   \<and> get_all_reachable_functions ex_env_no_d ex_state = (Inl TypeError, ex_state)"
proof -
  have ch: "chain_from (get_scope ex_env_no_d (current_ns ex_state)) = [ex_scope_m]"
    by (simp add: chain_from_def ex_env_no_d_def ex_env_def ex_scope_m_def)
  have cn: "counted_in [] [ex_scope_m] = {ex_d, ex_g}"
    by (simp add: counted_in_Cons_list function_names_list ex_scope_m_def ex_kinds
        insert_commute del: counted_in.simps(2))
  have cl: "closured ex_env_no_d (get_ns ex_d) = None" "closure_of ex_env_no_d ex_g = {''m.g''}"
    by (simp_all add: closure_of_def ex_env_no_d_def ex_env_def ex_defs)
  have r: "get_all_reachable_functions ex_env_no_d ex_state = (Inl TypeError, ex_state)"
    by (simp add: get_all_reachable_functions_def ex_env_no_d_def ex_env_def
        ex_scope_m_def ex_defs is_function_def_def)
  from ch cn cl r show ?thesis by (intro conjI)
qed

section \<open>The traversal keeps the name stack and only adds to the graph\<close>

lemma bind_err_eq_Inr: "bind_err r f = Inr y \<longleftrightarrow> (\<exists>x. r = Inr x \<and> f x = Inr y)"
  by (cases r) simp_all



lemma nodes_call_pointer: "nodes g \<subseteq> nodes (call_pointer env cur p g)"
  by (auto simp: call_pointer_def Let_def nodes_fold_add_edge split: option.splits)

lemma nodes_fold_call_pointer: "nodes g \<subseteq> nodes (fold (call_pointer env cur) ps g)"
proof (induction ps arbitrary: g)
  case (Cons p ps)
  have "nodes g \<subseteq> nodes (call_pointer env cur p g)" by (rule nodes_call_pointer)
  also have "\<dots> \<subseteq> nodes (fold (call_pointer env cur) ps (call_pointer env cur p g))" by (rule Cons.IH)
  finally show ?case by simp
qed simp

lemma grows_resolve_call: "grows s (resolve_call env n func s)"
  using nodes_fold_call_pointer [of "call_graph s" env "current_ns s" "retrieve_call_names env s n"]
  by (cases func)
     (auto simp: grows_def resolve_call_def Let_def edges_fold_add_edge nodes_fold_add_edge
        edges_fold_call_pointer)

lemma decorator_edges_alt:
  "decorator_edges env dec s =
     s\<lparr>call_graph := fold (decoded_edges env (current_ns s)) (decode_node env s dec) (call_graph s)\<rparr>"
proof -
  have "(\<lambda>d g. case d of NotDefinition \<Rightarrow> g
          | IsDefinition defi \<Rightarrow> fold (add_edge (current_ns s))
              (case closured env (get_ns defi) of None \<Rightarrow> [] | Some names \<Rightarrow> names) g)
        = decoded_edges env (current_ns s)"
    by (intro ext) (simp add: decoded_edges_def)
  then show ?thesis by (simp add: decorator_edges_def)
qed








lemma ex_lookups:
  "def_manager ex_env ''m.K'' = Some ex_K"
  "def_manager ex_env ''m.d'' = Some ex_d"
  "def_manager ex_env ''m.missing'' = None"
  "def_manager ex_env ''os'' = Some ex_os"
  "closured ex_env ''m.d'' = Some [''m.d'']"
  "closured ex_env ''m.os'' = Some [''os'']"
  "get_scope ex_env ''m'' = Some ex_scope_m"
  "get_scope ex_env ''m.g'' = Some ex_scope_g"
  "retrieve_call_names ex_env = ex_call_names"
  "decode_node ex_env = ex_decode"
  "retrieve_parent_names ex_env = ex_parent_names"
  "find_cls_fun_ns ex_env ''m.K'' n = [''m.K.'' @ n]"
  "builtins ex_env = [''len'', ''print'']"
  "get_lambda_name ex_env (Suc 0) = ''<lambda_1>''"
  "BUILTIN_NAME ex_env = ''<builtin>''"
  "CLS_INIT ex_env = ''__init__''"
  by (simp_all add: ex_env_def join_ns_def)

lemma visit_ex_call_d: "visit ex_env (Call (Name ''d'') [] []) ex_state = Inr ex_called_d"
  by (simp add: resolve_call_def call_pointer_def ex_lookups ex_d_def ex_state_def ex_called_d_def
      current_ns_def add_edge_def add_node_def insert_commute Let_def)

lemma visit_ex_chain: "visit ex_env (Call (Call (Call (Name ''d'') [] []) [] []) [] []) ex_state = Inr ex_called_d"
  by (simp add: resolve_call_def call_pointer_def ex_lookups ex_d_def ex_state_def ex_called_d_def
      current_ns_def add_edge_def add_node_def insert_commute Let_def)

lemma visit_ex_tree: "visit ex_env ex_tree ex_state = Inr ex_final"
  by (simp add: ex_tree_def resolve_call_def call_pointer_def decorator_edges_def ex_lookups ex_defs
      ex_state_def ex_final_def get_full_attr_names_def get_def_def ex_scope_g_def ex_scope_m_def
      is_builtin_def is_ext_def_def join_ns_def
      current_ns_def add_edge_def add_node_def insert_commute Let_def)

section \<open>Edges connect registered nodes\<close>

lemma cg_inv_add_node: "cg_inv g \<Longrightarrow> cg_inv (add_node n g)"
  by (auto simp: cg_inv_def)

lemma cg_inv_add_edge: "cg_inv g \<Longrightarrow> cg_inv (add_edge a b g)"
  by (auto simp: cg_inv_def)

lemma cg_inv_fold_add_edge: "cg_inv g \<Longrightarrow> cg_inv (fold (add_edge cur) xs g)"
  by (induction xs arbitrary: g) (simp_all add: cg_inv_add_edge)

lemma cg_inv_call_pointer: "cg_inv g \<Longrightarrow> cg_inv (call_pointer env cur p g)"
  by (simp add: call_pointer_def Let_def cg_inv_add_edge cg_inv_fold_add_edge split: option.splits)

lemma cg_inv_fold_call_pointer: "cg_inv g \<Longrightarrow> cg_inv (fold (call_pointer env cur) ps g)"
  by (induction ps arbitrary: g) (simp_all add: cg_inv_call_pointer)

lemma cg_inv_resolve_call:
  "cg_inv (call_graph s) \<Longrightarrow> cg_inv (call_graph (resolve_call env n func s))"
  by (cases func)
     (simp_all add: resolve_call_def Let_def cg_inv_add_edge cg_inv_fold_add_edge
        cg_inv_fold_call_pointer)

lemma cg_inv_decoded_edges: "cg_inv g \<Longrightarrow> cg_inv (decoded_edges env cur d g)"
  by (simp add: decoded_edges_def cg_inv_fold_add_edge split: decoded.splits)

lemma cg_inv_fold_decoded_edges: "cg_inv g \<Longrightarrow> cg_inv (fold (decoded_edges env cur) ds g)"
  by (induction ds arbitrary: g) (simp_all add: cg_inv_decoded_edges)

lemma cg_inv_decorator_edges:
  "cg_inv (call_graph s) \<Longrightarrow> cg_inv (call_graph (decorator_edges env dec s))"
  by (simp add: decorator_edges_alt cg_inv_fold_decoded_edges)

lemma visit_cg_inv:
  "visit env n s = Inr s' \<Longrightarrow> cg_inv (call_graph s) \<Longrightarrow> cg_inv (call_graph s')"
  "visit_all env ns s = Inr s' \<Longrightarrow> cg_inv (call_graph s) \<Longrightarrow> cg_inv (call_graph s')"
  "visit_keywords env ks s = Inr s' \<Longrightarrow> cg_inv (call_graph s) \<Longrightarrow> cg_inv (call_graph s')"
  "visit_decorators env ds s = Inr s' \<Longrightarrow> cg_inv (call_graph s) \<Longrightarrow> cg_inv (call_graph s')"
proof (induction env n s and env ns s and env ks s and env ds s
    arbitrary: s' and s' and s' and s'
    rule: visit_visit_all_visit_keywords_visit_decorators.induct)
  case (1 env i s)
  then show ?case by simp
next
  case (2 env v a s)
  then show ?case by simp
next
  case (3 env children s)
  then show ?case by simp
next
  case (4 env body s)
  define counter where "counter = Suc (lambda_counter s (current_ns s))"
  define lambda_name where "lambda_name = get_lambda_name env counter"
  define s1 where "s1 = s\<lparr>lambda_counter := (lambda_counter s)(current_ns s := counter),
      call_graph := add_node (join_ns (current_ns s) lambda_name) (call_graph s)\<rparr>"
  from "4.prems"(1) obtain sc s2
    where sc: "get_scope env (current_ns s) = Some sc"
      and b: "visit env body (s1\<lparr>name_stack := name_stack s1 @ [lambda_name]\<rparr>) = Inr s2"
      and s': "s' = s2\<lparr>name_stack := name_stack s1\<rparr>"
    by (auto simp: Let_def bind_err_eq_Inr s1_def lambda_name_def counter_def split: option.splits)
  have "cg_inv (call_graph (s1\<lparr>name_stack := name_stack s1 @ [lambda_name]\<rparr>))"
    using "4.prems"(2) by (simp add: s1_def cg_inv_add_node)
  then have "cg_inv (call_graph s2)"
    using "4.IH" [OF sc counter_def lambda_name_def refl s1_def b] by simp
  then show ?case
    using s' by simp
next
  case (5 env name decorator_list body s)
  from "5.prems"(1) obtain s1 s3
    where d: "visit_decorators env decorator_list s = Inr s1"
      and b: "visit_all env body
                (s1\<lparr>call_graph := add_node (join_ns (current_ns s1) name) (call_graph s1),
                    name_stack := name_stack s1 @ [name]\<rparr>) = Inr s3"
      and s': "s' = s3\<lparr>name_stack := name_stack s1\<rparr>"
    by (auto simp: Let_def bind_err_eq_Inr)
  have "cg_inv (call_graph s1)"
    using "5.IH"(1) [OF d "5.prems"(2)] .
  then have "cg_inv (call_graph (s1\<lparr>call_graph := add_node (join_ns (current_ns s1) name) (call_graph s1),
                    name_stack := name_stack s1 @ [name]\<rparr>))"
    by (simp add: cg_inv_add_node)
  then have "cg_inv (call_graph s3)"
    using "5.IH"(2) [OF refl, of s1 s3] b by simp
  then show ?case
    using s' by simp
next
  case (6 env func args kws s)
  from "6.prems"(1) obtain s1 s2 s3
    where a: "visit_all env args s = Inr s1"
      and k: "visit_keywords env kws s1 = Inr s2"
      and f: "visit env func s2 = Inr s3"
      and s': "s' = resolve_call env (Call func args kws) func s3"
    by (auto simp: bind_err_eq_Inr)
  have "cg_inv (call_graph s1)" using "6.IH"(1) [OF a "6.prems"(2)] .
  then have "cg_inv (call_graph s2)" using "6.IH"(2) [OF k] by simp
  then have "cg_inv (call_graph s3)" using "6.IH"(3) [OF f] by simp
  then show ?case using s' by (simp add: cg_inv_resolve_call)
next
  case (7 env s)
  then show ?case by simp
next
  case (8 env n ns s)
  then show ?case by (auto simp: bind_err_eq_Inr)
next
  case (9 env s)
  then show ?case by simp
next
  case (10 env a v ks s)
  then show ?case by (auto simp: bind_err_eq_Inr)
next
  case (11 env s)
  then show ?case by simp
next
  case (12 env d ds s)
  from "12.prems"(1) obtain s1
    where v: "visit env d s = Inr s1"
      and r: "visit_decorators env ds (decorator_edges env d s1) = Inr s'"
    by (auto simp: bind_err_eq_Inr)
  have "cg_inv (call_graph s1)"
    using "12.IH"(1) [OF v "12.prems"(2)] .
  then have "cg_inv (call_graph (decorator_edges env d s1))"
    by (rule cg_inv_decorator_edges)
  then show ?case
    using "12.IH"(2) [OF r] by simp
qed

text \<open>
  C4. If each endpoint of an edge is a node before the visit of a tree, the same holds of the
  graph after the visit: for the edges of resolved calls, of decorators, of the external
  attribute-path fallback and of the built-in fallback.
\<close>

theorem edges_between_registered_nodes:
  assumes "visit env tree s = Inr s'"
    and "\<forall>(a, b) \<in> edges (call_graph s). a \<in> nodes (call_graph s) \<and> b \<in> nodes (call_graph s)"
  shows "\<forall>(a, b) \<in> edges (call_graph s'). a \<in> nodes (call_graph s') \<and> b \<in> nodes (call_graph s')"
  using visit_cg_inv(1) [OF assms(1)] assms(2) by (simp add: cg_inv_def)

theorem edges_between_registered_nodes_witness:
  "visit ex_env ex_tree ex_state = Inr ex_final
   \<and> edges (call_graph ex_state) = {}
   \<and> (''m.g'', ''os.path.join'') \<in> edges (call_graph ex_final)
   \<and> (''m.g'', ''<builtin>.len'') \<in> edges (call_graph ex_final)
   \<and> ''m.g'' \<in> nodes (call_graph ex_final)
   \<and> ''os.path.join'' \<in> nodes (call_graph ex_final)
   \<and> ''<builtin>.len'' \<in> nodes (call_graph ex_final)"
proof -
  have e: "edges (call_graph ex_state) = {}"
    by (simp add: ex_state_def)
  then have h: "\<forall>(a, b) \<in> edges (call_graph ex_state).
      a \<in> nodes (call_graph ex_state) \<and> b \<in> nodes (call_graph ex_state)"
    by simp
  have m: "(''m.g'', ''os.path.join'') \<in> edges (call_graph ex_final)"
    "(''m.g'', ''<builtin>.len'') \<in> edges (call_graph ex_final)"
    by (simp_all add: ex_final_def)
  show ?thesis
    using visit_ex_tree e m edges_between_registered_nodes [OF visit_ex_tree h]
    by blast
qed

section \<open>The order of visits in a call\<close>

lemma visit_all_append:
  "visit_all env (xs @ ys) s = bind_err (visit_all env xs s) (visit_all env ys)"
proof (induction xs arbitrary: s)
  case (Cons x xs)
  show ?case
    by (cases "visit env x s") (simp_all add: Cons.IH)
qed simp

lemma visit_keywords_map:
  "visit_keywords env ks s = visit_all env (map kw_value ks) s"
proof (induction ks arbitrary: s)
  case (Cons k ks)
  obtain a v where k: "k = Keyword a v" by (cases k)
  show ?case
    by (cases "visit env v s") (simp_all add: k Cons.IH)
qed simp

lemma visit_Call_children:
  "visit env (Call func args kws) s =
     bind_err (visit_all env (args @ map kw_value kws @ [func]) s)
       (\<lambda>s3. Inr (resolve_call env (Call func args kws) func s3))"
proof (cases "visit_all env args s")
  case (Inr s1)
  show ?thesis
  proof (cases "visit_all env (map kw_value kws) s1")
    case s2: (Inr s2)
    show ?thesis
      by (cases "visit env func s2") (simp_all add: visit_all_append visit_keywords_map Inr s2)
  qed (simp add: visit_all_append visit_keywords_map Inr)
qed (simp add: visit_all_append)

lemma visit_all_foldl:
  "bind_err r (visit_all env ns) =
     foldl (\<lambda>r n. case r of Inl e \<Rightarrow> Inl e | Inr s1 \<Rightarrow> visit env n s1) r ns"
proof (induction ns arbitrary: r)
  case Nil
  show ?case by (cases r) simp_all
next
  case (Cons n ns)
  have "bind_err r (visit_all env (n # ns)) = bind_err (bind_err r (visit env n)) (visit_all env ns)"
    by (cases r) simp_all
  also have "\<dots> = foldl (\<lambda>r n. case r of Inl e \<Rightarrow> Inl e | Inr s1 \<Rightarrow> visit env n s1)
      (bind_err r (visit env n)) ns"
    by (rule Cons.IH)
  also have "\<dots> = foldl (\<lambda>r n. case r of Inl e \<Rightarrow> Inl e | Inr s1 \<Rightarrow> visit env n s1) r (n # ns)"
    by (simp add: bind_err_def)
  finally show ?case .
qed

lemma visit_Call_foldl:
  "visit env (Call func args kws) s =
     (case foldl (\<lambda>r n. case r of Inl e \<Rightarrow> Inl e | Inr s1 \<Rightarrow> visit env n s1) (Inr s)
             (args @ map kw_value kws @ [func]) of
        Inl e \<Rightarrow> Inl e
      | Inr s3 \<Rightarrow> Inr (resolve_call env (Call func args kws) func s3))"
proof -
  have h: "visit_all env (args @ map kw_value kws @ [func]) s =
      foldl (\<lambda>r n. case r of Inl e \<Rightarrow> Inl e | Inr s1 \<Rightarrow> visit env n s1) (Inr s)
        (args @ map kw_value kws @ [func])"
    by (rule visit_all_foldl [of "Inr s", unfolded bind_err_simps])
  show ?thesis
    unfolding visit_Call_children h bind_err_def ..
qed

lemma ex_lambda_2: "get_lambda_name ex_env (Suc (Suc 0)) = ''<lambda_2>''"
  by (simp add: ex_env_def)

text \<open>
  C5. Visiting a call is visiting its positional arguments, then the values of its keyword
  arguments, then its callee, one after the other in this order, each from the state the one
  before has left, and then resolving the call in the state reached; an error in one of them
  ends the visit. So in a chain \<^verbatim>\<open>f()()()\<close> the innermost call is resolved first, right
  after its callee \<^verbatim>\<open>f\<close> is visited from the state the chain starts in, and its edges are
  in the final graph, whatever the outer calls resolve to.
\<close>

theorem visit_Call_children_first:
  "visit env (Call func args kws) s =
     (case foldl (\<lambda>r n. case r of Inl e \<Rightarrow> Inl e | Inr s1 \<Rightarrow> visit env n s1) (Inr s)
             (args @ map kw_value kws @ [func]) of
        Inl e \<Rightarrow> Inl e
      | Inr s3 \<Rightarrow> Inr (resolve_call env (Call func args kws) func s3))
   \<and> (visit env (Call (Call (Call f [] []) [] []) [] []) s = Inr s' \<longrightarrow>
        (\<exists>s0. visit env f s = Inr s0
              \<and> edges (call_graph (resolve_call env (Call f [] []) f s0))
                 \<subseteq> edges (call_graph s')))"
proof (intro conjI impI)
  show "visit env (Call func args kws) s =
     (case foldl (\<lambda>r n. case r of Inl e \<Rightarrow> Inl e | Inr s1 \<Rightarrow> visit env n s1) (Inr s)
             (args @ map kw_value kws @ [func]) of
        Inl e \<Rightarrow> Inl e
      | Inr s3 \<Rightarrow> Inr (resolve_call env (Call func args kws) func s3))"
    by (rule visit_Call_foldl)
next
  assume v: "visit env (Call (Call (Call f [] []) [] []) [] []) s = Inr s'"
  then obtain s2 where m: "visit env (Call (Call f [] []) [] []) s = Inr s2"
    by (auto simp: bind_err_eq_Inr)
  then obtain s1 where i: "visit env (Call f [] []) s = Inr s1"
    by (auto simp: bind_err_eq_Inr)
  then obtain s0 where f: "visit env f s = Inr s0"
    and r: "s1 = resolve_call env (Call f [] []) f s0"
    by (auto simp: bind_err_eq_Inr)
  have "grows s1 s2"
    using m i by (auto simp: bind_err_eq_Inr grows_resolve_call)
  moreover have "grows s2 s'"
    using v m by (auto simp: bind_err_eq_Inr grows_resolve_call)
  ultimately have "edges (call_graph s1) \<subseteq> edges (call_graph s')"
    by (auto simp: grows_def)
  with f r show "\<exists>s0. visit env f s = Inr s0
      \<and> edges (call_graph (resolve_call env (Call f [] []) f s0)) \<subseteq> edges (call_graph s')"
    by blast
qed

theorem visit_Call_children_first_witness:
  "visit ex_env (Call (Call (Call (Name ''d'') [] []) [] []) [] []) ex_state = Inr ex_called_d
   \<and> visit ex_env (Name ''d'') ex_state = Inr ex_state
   \<and> edges (call_graph (resolve_call ex_env (Call (Name ''d'') [] []) (Name ''d'') ex_state))
       = {(''m'', ''m.d'')}
   \<and> (''m'', ''m.d'') \<in> edges (call_graph ex_called_d)
   \<and> visit ex_env ex_call_args ex_state = Inr ex_called_args"
proof -
  have n: "visit ex_env (Name ''d'') ex_state = Inr ex_state"
    by simp
  have e: "edges (call_graph (resolve_call ex_env (Call (Name ''d'') [] []) (Name ''d'') ex_state))
       = {(''m'', ''m.d'')}"
    by (simp add: resolve_call_def call_pointer_def ex_lookups ex_d_def ex_state_def Let_def
        current_ns_def)
  from visit_Call_children_first [of ex_env "Name ''d''" "[]" "[]" ex_state "Name ''d''" ex_called_d]
    visit_ex_chain
  obtain s0 where "visit ex_env (Name ''d'') ex_state = Inr s0"
    and "edges (call_graph (resolve_call ex_env (Call (Name ''d'') [] []) (Name ''d'') s0))
           \<subseteq> edges (call_graph ex_called_d)"
    by blast
  with n e have m: "(''m'', ''m.d'') \<in> edges (call_graph ex_called_d)"
    by auto
  have a: "visit ex_env ex_call_args ex_state = Inr ex_called_args"
  proof -
    have "visit ex_env ex_call_args ex_state =
       (case foldl (\<lambda>r n. case r of Inl e \<Rightarrow> Inl e | Inr s1 \<Rightarrow> visit ex_env n s1) (Inr ex_state)
               ([Lambda (Call (Name ''K'') [] [])]
                @ map kw_value [Keyword (Some ''k'') (Lambda (Call (Name ''d'') [] []))]
                @ [Call (Name ''K'') [] []]) of
          Inl e \<Rightarrow> Inl e
        | Inr s3 \<Rightarrow> Inr (resolve_call ex_env ex_call_args (Call (Name ''K'') [] []) s3))"
      unfolding ex_call_args_def by (rule visit_Call_children_first [THEN conjunct1])
    also have "\<dots> = Inr ex_called_args"
      by (simp add: resolve_call_def call_pointer_def ex_lookups ex_lambda_2 ex_K_def
          ex_d_def ex_called_args_def ex_call_args_def ex_state_def
          join_ns_def current_ns_def add_edge_def add_node_def insert_commute Let_def)
    finally show ?thesis .
  qed
  from visit_ex_chain n e m a show ?thesis
    by (intro conjI)
qed

section \<open>Decorators\<close>







section \<open>The closure computation over a run\<close>

lemma closure_events_append: "closure_events (xs @ ys) = closure_events xs + closure_events ys"
  by (induction xs rule: closure_events.induct) simp_all

lemma closure_events_module_events: "closure_events (module_events c ms) = length ms"
  by (induction ms) (simp_all add: module_events_def)

lemma analyze_events:
  "analyze k renv modname rs = Some (Inr rs') \<Longrightarrow>
     \<exists>rest. modules_analyzed rs' = rev (modname # rest) @ modules_analyzed rs
          \<and> events rs' = events rs @ module_events (computed_closure renv) (modname # rest)"
  "analyze_submodules k renv imps rs = Some (Inr rs') \<Longrightarrow>
     \<exists>ms. modules_analyzed rs' = rev ms @ modules_analyzed rs
        \<and> events rs' = events rs @ module_events (computed_closure renv) ms"
proof (induction k renv modname rs and k renv imps rs arbitrary: rs' and rs'
    rule: analyze_analyze_submodules.induct)
  case (1 renv modname rs)
  then show ?case by simp
next
  case (2 k renv modname rs)
  define c where "c = computed_closure renv"
  define env where "env = processor_env renv c"
  define rs1 where "rs1 = init_processor modname c rs"
  define rs2 where "rs2 = rs1\<lparr>events := events rs1 @ [ModuleVisited modname (closured env)]\<rparr>"
  from "2.prems" obtain s1
    where v: "visit env (module_tree renv modname)
                \<lparr>call_graph = graph rs2, name_stack = [modname], last_called_names = [],
                 lambda_counter = counters rs2\<rparr> = Inr s1"
      and r: "analyze_submodules k renv (get_imports renv modname)
                (rs2\<lparr>graph := call_graph s1, counters := lambda_counter s1\<rparr>) = Some (Inr rs')"
    by (auto simp: Let_def rs2_def rs1_def env_def c_def split: sum.splits)
  from "2.IH" [OF c_def env_def rs1_def rs2_def v r] obtain ms
    where "modules_analyzed rs' = rev ms @ modules_analyzed (rs2\<lparr>graph := call_graph s1, counters := lambda_counter s1\<rparr>)"
      and "events rs' = events (rs2\<lparr>graph := call_graph s1, counters := lambda_counter s1\<rparr>)
             @ module_events (computed_closure renv) ms"
    by blast
  then have "modules_analyzed rs' = rev (modname # ms) @ modules_analyzed rs
      \<and> events rs' = events rs @ module_events (computed_closure renv) (modname # ms)"
    by (simp add: rs2_def rs1_def env_def c_def init_processor_def processor_env_def module_events_def)
  then show ?case by blast
next
  case (3 k renv rs)
  then have "modules_analyzed rs' = rev [] @ modules_analyzed rs
      \<and> events rs' = events rs @ module_events (computed_closure renv) []"
    by (simp add: module_events_def)
  then show ?case by blast
next
  case (4 k renv imp imps rs)
  show ?case
  proof (cases "imp \<in> set (modules_analyzed rs)")
    case True
    then show ?thesis using "4.IH"(1) "4.prems" by simp
  next
    case False
    with "4.prems" obtain rs1
      where a: "analyze k renv imp rs = Some (Inr rs1)"
        and r: "analyze_submodules k renv imps rs1 = Some (Inr rs')"
      by (auto split: option.splits sum.splits)
    from "4.IH"(2) [OF False a] obtain rest
      where 1: "modules_analyzed rs1 = rev (imp # rest) @ modules_analyzed rs"
        "events rs1 = events rs @ module_events (computed_closure renv) (imp # rest)"
      by blast
    from "4.IH"(3) [OF False a refl r] obtain ms
      where 2: "modules_analyzed rs' = rev ms @ modules_analyzed rs1"
        "events rs' = events rs1 @ module_events (computed_closure renv) ms"
      by blast
    have "modules_analyzed rs' = rev ((imp # rest) @ ms) @ modules_analyzed rs
        \<and> events rs' = events rs @ module_events (computed_closure renv) ((imp # rest) @ ms)"
      using 1 2 by (simp add: module_events_def)
    then show ?thesis by blast
  qed
qed

text \<open>
  C9, as the code has it. A run that ends has analysed the root module and then some further
  modules; its events are, for each of these modules in turn, the closure computation by the
  constructor of the module's processor and then the visit of the module's tree with the
  mapping just computed. So the first closure computation precedes the first visit, there
  are as many closure computations as modules analysed, and every visit reads the mapping
  that its own processor computed; these mappings are all the closure of the one definition
  store, which the pass does not change.
\<close>

theorem closure_computed_per_module:
  assumes "analyze fuel renv root rs = Some (Inr rs')"
  shows "\<exists>rest. modules_analyzed rs' = rev (root # rest) @ modules_analyzed rs
      \<and> events rs' = events rs
           @ concat (map (\<lambda>m. [ClosureComputed m (transitive_closure renv (def_manager (collaborators renv))),
                              ModuleVisited m (transitive_closure renv (def_manager (collaborators renv)))])
                         (root # rest))
      \<and> closure_events (events rs') = closure_events (events rs) + length (root # rest)"
proof -
  from analyze_events(1) [OF assms] obtain rest
    where m: "modules_analyzed rs' = rev (root # rest) @ modules_analyzed rs"
      and e: "events rs' = events rs @ module_events (computed_closure renv) (root # rest)"
    by blast
  have c: "closure_events (events rs') = closure_events (events rs) + length (root # rest)"
    unfolding e closure_events_append closure_events_module_events ..
  have "events rs' = events rs
           @ concat (map (\<lambda>m. [ClosureComputed m (transitive_closure renv (def_manager (collaborators renv))),
                              ModuleVisited m (transitive_closure renv (def_manager (collaborators renv)))])
                         (root # rest))"
    using e by (simp add: module_events_def computed_closure_def)
  with m c show ?thesis by blast
qed

lemma computed_closure_ex: "computed_closure ex_run_env = closured ex_env"
  by (simp add: computed_closure_def ex_run_env_def)

lemma processor_env_ex: "processor_env ex_run_env (closured ex_env) = ex_env"
  by (simp add: processor_env_def ex_run_env_def)

lemma analyze_ex_run: "analyze 2 ex_run_env ''m'' ex_run_start = Some (Inr ex_run_end)"
proof -
  have v: "visit ex_env (Node [Call (Name ''d'') [] []]) ex_state = Inr ex_called_d"
    using visit_ex_call_d by simp
  have s: "\<lparr>call_graph = \<lparr>nodes = {}, edges = {}\<rparr>, name_stack = [''m''], last_called_names = [],
            lambda_counter = \<lambda>ns. 0\<rparr> = ex_state"
    by (simp add: ex_state_def)
  have i: "get_imports ex_run_env ''m'' = [''n'']" "get_imports ex_run_env ''n'' = [''m'']"
    "module_tree ex_run_env ''m'' = Node [Call (Name ''d'') [] []]"
    "module_tree ex_run_env ''n'' = Node []"
    by (simp_all add: ex_run_env_def)
  have v2: "visit ex_env (Node []) st = Inr st" for st
    by simp
  show ?thesis
    unfolding numeral_2_eq_2 analyze.simps analyze_submodules.simps Let_def computed_closure_ex
      processor_env_ex i
    by (simp add: init_processor_def ex_run_start_def s v v2 ex_called_d_def ex_run_end_def
        del: visit.simps)
qed

theorem closure_computed_per_module_witness:
  "analyze 2 ex_run_env ''m'' ex_run_start = Some (Inr ex_run_end)
   \<and> modules_analyzed ex_run_end = [''n'', ''m'']
   \<and> closure_events (events ex_run_end) = 2"
proof -
  from closure_computed_per_module [OF analyze_ex_run] obtain rest
    where m: "modules_analyzed ex_run_end = rev (''m'' # rest) @ modules_analyzed ex_run_start"
      and c: "closure_events (events ex_run_end)
              = closure_events (events ex_run_start) + length (''m'' # rest)"
    by blast
  have "modules_analyzed ex_run_end = [''n'', ''m'']"
    by (simp add: ex_run_end_def)
  with m have "length (''m'' # rest) = 2"
    by (simp add: ex_run_start_def) (metis length_Cons list.size(3))
  with c have "closure_events (events ex_run_end) = 2"
    by (simp add: ex_run_start_def)
  with analyze_ex_run show ?thesis
    by (simp add: ex_run_end_def)
qed

text \<open>
  C9, as stated, fails: the run on the two modules computes the closure twice, the second
  time after the first module has been visited.
\<close>

theorem closure_computed_again_for_submodule:
  "analyze 2 ex_run_env ''m'' ex_run_start = Some (Inr ex_run_end)
   \<and> events ex_run_start = []
   \<and> events ex_run_end = [ClosureComputed ''m'' (closured ex_env),
                           ModuleVisited ''m'' (closured ex_env),
                           ClosureComputed ''n'' (closured ex_env),
                           ModuleVisited ''n'' (closured ex_env)]
   \<and> closure_events (events ex_run_end) = 2"
  using analyze_ex_run by (simp add: ex_run_start_def ex_run_end_def)

end
